theory Spec2Isabelle
  imports Main
begin

section \<open>sanctuary-argv: the argument parser of \<^verbatim>\<open>index.js\<close>\<close>

text \<open>
  The module exports one pure function, \<^verbatim>\<open>parseArgs\<close>, and the two handler
  constructors \<^verbatim>\<open>Flag\<close> and \<^verbatim>\<open>Option\<close>. A JavaScript string is modelled as a
  \<^typ>\<open>string\<close>, one \<^typ>\<open>char\<close> per code unit: the regular expressions of
  \<^verbatim>\<open>names\<close> carry no \<^verbatim>\<open>u\<close> flag, so they work code unit by code unit.
\<close>

subsection \<open>Types\<close>

text \<open>\<^verbatim>\<open>Setter a\<close> is \<^verbatim>\<open>a -> a\<close>.\<close>

type_synonym 'a Setter = "'a \<Rightarrow> 'a"

text \<open>\<^verbatim>\<open>Validator a\<close> is \<^verbatim>\<open>String -> Either String (Setter a)\<close>.\<close>

type_synonym 'a Validator = "string \<Rightarrow> string + 'a Setter"

text \<open>\<^verbatim>\<open>Handler a\<close> is \<^verbatim>\<open>Either (Setter a) (Validator a)\<close>.\<close>

type_synonym 'a Handler = "'a Setter + 'a Validator"

text \<open>
  The specification is a \<^verbatim>\<open>StrMap (Handler a)\<close>; \<^verbatim>\<open>parseArgs\<close> reads it
  with \<^verbatim>\<open>propertyIsEnumerable\<close> (is the key present?) and \<^verbatim>\<open>spec[name]\<close>.
\<close>

type_synonym 'a Spec = "string \<rightharpoonup> 'a Handler"

text \<open>
  The value of a call: \<open>Some (Inl msg)\<close> is \<^verbatim>\<open>Left (msg)\<close>, \<open>Some (Inr (conf, xs))\<close>
  is \<^verbatim>\<open>Right (Pair (conf) (xs))\<close>, and \<open>None\<close> is a call that does not return
  a value because it throws (a \<^verbatim>\<open>TypeError\<close> on \<^verbatim>\<open>undefined\<close> or \<^verbatim>\<open>null\<close>).
\<close>

type_synonym 'a Result = "(string + 'a \<times> string list) option"

text \<open>
  \<^verbatim>\<open>Flag\<close> is \<^verbatim>\<open>def ('Flag') ({}) ([Setter (a), Handler (a)]) (Left)\<close> and
  \<^verbatim>\<open>Option\<close> is \<^verbatim>\<open>def ('Option') ({}) ([Validator (a), Handler (a)]) (Right)\<close>:
  on a function, which is all the model can give them, they are \<^verbatim>\<open>Left\<close> and
  \<^verbatim>\<open>Right\<close>.
\<close>

definition Flag :: "'a Setter \<Rightarrow> 'a Handler" where
  "Flag = Inl"

definition Option :: "'a Validator \<Rightarrow> 'a Handler" where
  "Option = Inr"

subsection \<open>Strings and arrays\<close>

text \<open>\<^verbatim>\<open>s.startsWith (p)\<close>.\<close>

definition startsWith :: "string \<Rightarrow> string \<Rightarrow> bool" where
  "startsWith s p = (take (length p) s = p)"

text \<open>\<^verbatim>\<open>args[idx]\<close>: \<open>None\<close> is \<^verbatim>\<open>undefined\<close>, the value read out of range.\<close>

definition index :: "'b list \<Rightarrow> nat \<Rightarrow> 'b option" where
  "index xs i = (if i < length xs then Some (xs ! i) else None)"

text \<open>\<^verbatim>\<open>args.slice (idx)\<close>: the elements from \<open>idx\<close> on, none when out of range.\<close>

definition slice :: "'b list \<Rightarrow> nat \<Rightarrow> 'b list" where
  "slice xs i = drop i xs"

subsection \<open>The name expander\<close>

text \<open>
  \<^verbatim>\<open>arg.replace (/(?:)/g, '-')\<close>: the empty pattern matches once at every position
  of the string, the end included, and a hyphen is put at each.
\<close>

fun replace_empty :: "string \<Rightarrow> string" where
  "replace_empty [] = ''-''"
| "replace_empty (c # cs) = CHR ''-'' # c # replace_empty cs"

text \<open>
  \<^verbatim>\<open>s.match (/-[^-]/g)\<close>: the matches from left to right, each search starting where
  the match before ended. (The \<^verbatim>\<open>null\<close> that JavaScript returns for no match at all
  is made in \<open>names\<close>.)
\<close>

fun match_all :: "string \<Rightarrow> string list" where
  "match_all (a # b # cs) =
     (if a = CHR ''-'' \<and> b \<noteq> CHR ''-'' then [a, b] # match_all cs
      else match_all (b # cs))"
| "match_all cs = []"

text \<open>
  \<^verbatim>\<open>names\<close>. \<open>None\<close> is the \<^verbatim>\<open>null\<close> that \<^verbatim>\<open>match\<close> returns when nothing
  matches; iterating over it throws.
\<close>

definition names :: "string \<Rightarrow> string list option" where
  "names arg =
     (if startsWith arg ''--'' then Some [arg]
      else (case match_all (replace_empty arg) of
              [] \<Rightarrow> None
            | m # ms \<Rightarrow> Some (m # ms)))"

subsection \<open>The scan\<close>

text \<open>
  The inner loop, \<^verbatim>\<open>for (const name of names (args[idx]))\<close>, on the names still to
  visit. It changes \<open>conf\<close> and \<open>idx\<close>; \<open>Some (Inl msg)\<close> is a \<^verbatim>\<open>return Left (msg)\<close>
  out of \<^verbatim>\<open>parseArgs\<close>, \<open>Some (Inr (conf, idx))\<close> the end of the iteration with
  the variables as they are then. An option value read out of range would be
  \<^verbatim>\<open>undefined\<close>, outside the validator's type: \<open>None\<close>.
\<close>

fun for_names ::
  "'a Spec \<Rightarrow> string list \<Rightarrow> string list \<Rightarrow> 'a \<Rightarrow> nat \<Rightarrow> (string + 'a \<times> nat) option"
where
  "for_names spec args [] conf idx = Some (Inr (conf, idx))"
| "for_names spec args (name # rest) conf idx =
     (case spec name of
        None \<Rightarrow> Some (Inl (name @ '' is unrecognized''))
      | Some (Inl f) \<Rightarrow> for_names spec args rest (f conf) idx
      | Some (Inr g) \<Rightarrow>
          if idx + 1 = length args then Some (Inl (name @ '' requires a value''))
          else (case index args (idx + 1) of
                  None \<Rightarrow> None
                | Some v \<Rightarrow>
                    (case g v of
                       Inl msg \<Rightarrow> Some (Inl msg)
                     | Inr f \<Rightarrow> for_names spec args rest (f conf) (idx + 1))))"

text \<open>
  The outer loop, \<^verbatim>\<open>for (let conf = init, either, idx = 0; ; idx += 1)\<close>, from the
  state \<open>(conf, idx)\<close> at the head of an iteration. \<^verbatim>\<open>undefined\<close> is neither
  \<^verbatim>\<open>'-'\<close> nor \<^verbatim>\<open>'--'\<close>, and \<^verbatim>\<open>undefined.startsWith\<close> throws.
\<close>

function parseArgs_loop :: "'a Spec \<Rightarrow> string list \<Rightarrow> 'a \<Rightarrow> nat \<Rightarrow> 'a Result" where
  "parseArgs_loop spec args conf idx =
     (if idx = length args then Some (Inr (conf, []))
      else if index args idx = Some ''-'' then
        Some (Inl ''- is not a valid flag or option name'')
      else if index args idx = Some ''--'' then Some (Inr (conf, slice args (idx + 1)))
      else (case index args idx of
              None \<Rightarrow> None
            | Some arg \<Rightarrow>
                if \<not> startsWith arg ''-'' then Some (Inr (conf, slice args idx))
                else (case names arg of
                        None \<Rightarrow> None
                      | Some ns \<Rightarrow>
                          (case for_names spec args ns conf idx of
                             None \<Rightarrow> None
                           | Some (Inl msg) \<Rightarrow> Some (Inl msg)
                           | Some (Inr (conf', idx')) \<Rightarrow>
                               parseArgs_loop spec args conf' (idx' + 1)))))"
  by pat_completeness auto
termination
proof (relation "measure (\<lambda>(spec, args, conf, idx). length args - idx)")
  show "wf (measure (\<lambda>(spec, args, conf, idx). length args - idx))"
    by simp
next
  fix spec :: "'a Spec" and args :: "string list" and conf :: 'a and idx :: nat
    and arg ns r p conf' idx'
  assume arg: "index args idx = Some arg"
    and ret: "for_names spec args ns conf idx = Some r" "r = Inr p" "(conf', idx') = p"
  have "for_names spec args ms c i = Some (Inr (c', i')) \<Longrightarrow> i \<le> i'" for ms c i c' i'
  proof (induction ms arbitrary: c i)
    case Nil
    then show ?case by simp
  next
    case (Cons m ms)
    then show ?case
      by (fastforce split: option.splits sum.splits if_splits)
  qed
  from this [of ns conf idx conf' idx'] ret have "idx \<le> idx'"
    by auto
  moreover from arg have "idx < length args"
    by (simp add: index_def split: if_splits)
  ultimately show "((spec, args, conf', idx' + 1), (spec, args, conf, idx))
      \<in> measure (\<lambda>(spec, args, conf, idx). length args - idx)"
    by simp
qed

declare parseArgs_loop.simps [simp del]

text \<open>
  The function that the module hands to \<^verbatim>\<open>def ('parseArgs')\<close>, lines 341 to 365 of
  \<^verbatim>\<open>index.js\<close>: the loop from \<^verbatim>\<open>conf = init\<close> and \<^verbatim>\<open>idx = 0\<close>. It is what a
  call of \<^verbatim>\<open>parseArgs\<close> computes once the call has passed the type check below.
\<close>

fun parseArgs :: "'a Spec \<Rightarrow> 'a \<times> string list \<Rightarrow> 'a Result" where
  "parseArgs spec (init, args) = parseArgs_loop spec args init 0"

text \<open>
  The exported \<^verbatim>\<open>parseArgs\<close> is that function wrapped by
  \<^verbatim>\<open>def ('parseArgs') ({}) ([StrMap (Handler a), Pair a (Array String),
  Either String (Pair a (Array String))])\<close>, with \<^verbatim>\<open>checkTypes: true\<close>: sanctuary-def
  checks the arguments before the function runs and the value it returns after, and
  throws a \<^verbatim>\<open>TypeError\<close> (\<open>None\<close>) when a check fails. The handlers, the strings
  and the shapes \<^verbatim>\<open>StrMap\<close>, \<^verbatim>\<open>Pair\<close>, \<^verbatim>\<open>Either\<close> and \<^verbatim>\<open>Array\<close> are types of the
  model already. What is left is the type variable \<^verbatim>\<open>a\<close>, which stands at the initial
  configuration and at the configuration returned: these must have a type of the
  environment in common. sanctuary-def is no part of the repository, so that test is
  the parameter \<open>common\<close>, on the list of the values met at \<^verbatim>\<open>a\<close>.

  A handler is a function that returns on every argument. \<^verbatim>\<open>Flag\<close> and \<^verbatim>\<open>Option\<close> are
  wrapped by \<^verbatim>\<open>def\<close> too, which makes the function they are given throw when it is
  applied at two types; a handler that throws is outside the model.
\<close>

definition parseArgs_checked ::
  "('a list \<Rightarrow> bool) \<Rightarrow> 'a Spec \<Rightarrow> 'a \<times> string list \<Rightarrow> 'a Result"
where
  "parseArgs_checked common spec input =
     (if \<not> common [fst input] then None
      else (case parseArgs spec input of
              Some (Inr (conf, xs)) \<Rightarrow>
                if common [fst input, conf] then Some (Inr (conf, xs)) else None
            | r \<Rightarrow> r))"

text \<open>
  The states at the head of an iteration of the outer loop that a scan from \<open>(conf, idx)\<close>
  comes to: the state itself, and those reached from the next head when the iteration
  at \<open>idx\<close> returns nothing, which is when the token there is hyphen-prefixed, is
  neither \<^verbatim>\<open>'-'\<close> nor \<^verbatim>\<open>'--'\<close>, and the inner loop runs to its end.
\<close>

inductive reaches :: "'a Spec \<Rightarrow> string list \<Rightarrow> 'a \<Rightarrow> nat \<Rightarrow> 'a \<Rightarrow> nat \<Rightarrow> bool"
  for spec :: "'a Spec" and args :: "string list"
where
  here: "reaches spec args conf idx conf idx"
| iteration:
    "index args idx = Some arg \<Longrightarrow> arg \<noteq> ''-'' \<Longrightarrow> arg \<noteq> ''--'' \<Longrightarrow>
     startsWith arg ''-'' \<Longrightarrow> names arg = Some ns \<Longrightarrow>
     for_names spec args ns conf idx = Some (Inr (conf', idx')) \<Longrightarrow>
     reaches spec args conf' (idx' + 1) conf'' idx'' \<Longrightarrow>
     reaches spec args conf idx conf'' idx''"

subsection \<open>The specification's account of a token's names\<close>

text \<open>
  Following the specification, 4.2 step 5, on the tokens \<open>following\<close> the one being
  expanded: each name in left-to-right order; an absent name ends the scan with
  \<open><name> is unrecognized\<close>; a Flag changes the configuration and consumes nothing; an
  Option consumes the next whole token, whatever its shape, fails with
  \<open><name> requires a value\<close> when there is none, and otherwise hands the token to its
  validator, whose message ends the scan and whose setter changes the configuration.
  The result is the configuration and the tokens left after the values consumed.
\<close>

fun names_in_order ::
  "'a Spec \<Rightarrow> string list \<Rightarrow> 'a \<Rightarrow> string list \<Rightarrow> string + 'a \<times> string list"
where
  "names_in_order spec [] conf following = Inr (conf, following)"
| "names_in_order spec (name # rest) conf following =
     (case spec name of
        None \<Rightarrow> Inl (name @ '' is unrecognized'')
      | Some (Inl f) \<Rightarrow> names_in_order spec rest (f conf) following
      | Some (Inr g) \<Rightarrow>
          (case following of
             [] \<Rightarrow> Inl (name @ '' requires a value'')
           | v # following' \<Rightarrow>
               (case g v of
                  Inl msg \<Rightarrow> Inl msg
                | Inr f \<Rightarrow> names_in_order spec rest (f conf) following')))"

subsection \<open>The fixture of the test suite\<close>

text \<open>
  \<^verbatim>\<open>defaultOptions\<close>, \<^verbatim>\<open>color\<close>, \<^verbatim>\<open>email\<close>, \<^verbatim>\<open>words\<close> and \<^verbatim>\<open>updaters\<close>
  of \<^verbatim>\<open>test/index.js\<close>. \<^verbatim>\<open>show\<close> of a string is its JSON form: \<open>show_plain\<close>
  writes the quotes and no escape, which is \<^verbatim>\<open>show\<close> on the strings with nothing
  to escape, the only ones it is used at below.
\<close>

record Options =
  color :: bool
  email :: "string option"
  words :: "string list"

definition defaultOptions :: Options where
  "defaultOptions = \<lparr>color = False, email = None, words = []\<rparr>"

definition show_plain :: "string \<Rightarrow> string" where
  "show_plain s = [CHR 0x22] @ s @ [CHR 0x22]"

definition color_flag :: "Options Handler" where
  "color_flag = Flag (\<lambda>options. options\<lparr>color := True\<rparr>)"

definition email_option :: "Options Handler" where
  "email_option = Option (\<lambda>email.
     if CHR ''@'' \<in> set email then Inr (\<lambda>options. options\<lparr>email := Some email\<rparr>)
     else Inl (show_plain email @ '' is not a valid email address''))"

definition words_option :: "Options Handler" where
  "words_option = Option (\<lambda>word.
     Inr (\<lambda>options. options\<lparr>words := words options @ [word]\<rparr>))"

definition updaters :: "Options Spec" where
  "updaters = map_of
     [(''-c'', color_flag), (''--color'', color_flag), (''--colour'', color_flag),
      (''-e'', email_option), (''--email'', email_option),
      (''-w'', words_option), (''--word'', words_option)]"

subsection \<open>Configurations of two types\<close>






section \<open>Properties\<close>

subsection \<open>Strings, indices and names\<close>


lemma index_append_here: "index (pre @ t # rest) (length pre) = Some t"
  by (simp add: index_def)

lemma index_lt: "index xs i = Some x \<Longrightarrow> i < length xs"
  by (simp add: index_def split: if_splits)

lemma match_all_hyphen_replace:
  "match_all (CHR ''-'' # replace_empty cs) = match_all (replace_empty cs)"
  by (cases cs) simp_all

lemma match_all_replace_empty:
  "match_all (replace_empty cs) = map (\<lambda>c. [CHR ''-'', c]) (filter (\<lambda>c. c \<noteq> CHR ''-'') cs)"
proof (induction cs)
  case Nil
  show ?case by simp
next
  case (Cons c cs)
  then show ?case
    by (simp add: match_all_hyphen_replace)
qed

lemma names_short:
  assumes "c \<noteq> CHR ''-''"
  shows "names (CHR ''-'' # c # cs) =
    Some (map (\<lambda>x. [CHR ''-'', x]) (filter (\<lambda>x. x \<noteq> CHR ''-'') (c # cs)))"
  using assms by (simp add: names_def startsWith_def match_all_replace_empty)

lemma names_long: "startsWith arg ''--'' \<Longrightarrow> names arg = Some [arg]"
  by (simp add: names_def)

lemma names_lone: "names ''-'' = None"
  by (simp add: names_def startsWith_def)


subsection \<open>The inner loop\<close>

lemma for_names_append:
  "for_names spec args (ns1 @ ns2) conf idx =
     (case for_names spec args ns1 conf idx of
        Some (Inr (conf', idx')) \<Rightarrow> for_names spec args ns2 conf' idx'
      | r \<Rightarrow> r)"
  by (induction ns1 arbitrary: conf idx) (auto split: option.splits sum.splits)

text \<open>The inner loop on the array is the specification's account on the tokens following.\<close>

lemma names_in_order_left:
  "names_in_order spec ns conf following = Inr (conf', left) \<Longrightarrow>
   \<exists>used. following = used @ left"
proof (induction ns arbitrary: conf following)
  case Nil
  then show ?case by simp
next
  case (Cons n ns)
  show ?case
  proof (cases "spec n")
    case None
    with Cons.prems show ?thesis by simp
  next
    case (Some h)
    show ?thesis
    proof (cases h)
      case (Inl f)
      with Some Cons show ?thesis by simp
    next
      case (Inr g)
      with Some Cons.prems obtain v rest f where
        fol: "following = v # rest" and "g v = Inr f"
        and "names_in_order spec ns (f conf) rest = Inr (conf', left)"
        by (auto split: list.splits sum.splits)
      with Cons.IH obtain used where "rest = used @ left"
        by blast
      with fol have "following = (v # used) @ left" by simp
      then show ?thesis by blast
    qed
  qed
qed

lemma for_names_in_order:
  "for_names spec (pre @ t # used @ following) ns conf (length pre + length used) =
     (case names_in_order spec ns conf following of
        Inl msg \<Rightarrow> Some (Inl msg)
      | Inr (conf', left) \<Rightarrow>
          Some (Inr (conf', length pre + length used + (length following - length left))))"
proof (induction ns arbitrary: conf used following)
  case Nil
  show ?case by simp
next
  case (Cons n ns)
  show ?case
  proof (cases "spec n")
    case None
    then show ?thesis by simp
  next
    case (Some h)
    show ?thesis
    proof (cases h)
      case (Inl f)
      with Some Cons show ?thesis by simp
    next
      case (Inr g)
      show ?thesis
      proof (cases following)
        case Nil
        with Some Inr show ?thesis by simp
      next
        case (Cons v rest)
        have v: "index (pre @ t # used @ v # rest) (length pre + length used + 1) = Some v"
          by (simp add: index_def nth_append)
        show ?thesis
        proof (cases "g v")
          case (Inl msg)
          with Some Inr Cons v show ?thesis by simp
        next
          case f: (Inr f)
          have "for_names spec (pre @ t # (used @ [v]) @ rest) ns (f conf)
                  (length pre + length (used @ [v])) =
                (case names_in_order spec ns (f conf) rest of
                   Inl msg \<Rightarrow> Some (Inl msg)
                 | Inr (conf', left) \<Rightarrow>
                     Some (Inr (conf', length pre + length (used @ [v])
                       + (length rest - length left))))"
            by (rule Cons.IH)
          moreover have "length rest - length left + 1 = length (v # rest) - length left"
            if "names_in_order spec ns (f conf) rest = Inr (c, left)" for c left
            using names_in_order_left [OF that] by auto
          ultimately show ?thesis
            using Some Inr Cons v f by (auto split: sum.splits)
        qed
      qed
    qed
  qed
qed


subsection \<open>The outer loop, token by token\<close>

lemma loop_at:
  "parseArgs_loop spec (pre @ t # rest) conf (length pre) =
     (if t = ''-'' then Some (Inl ''- is not a valid flag or option name'')
      else if t = ''--'' then Some (Inr (conf, rest))
      else if \<not> startsWith t ''-'' then Some (Inr (conf, t # rest))
      else (case names t of
              None \<Rightarrow> None
            | Some ns \<Rightarrow>
                (case names_in_order spec ns conf rest of
                   Inl msg \<Rightarrow> Some (Inl msg)
                 | Inr (conf', left) \<Rightarrow>
                     parseArgs_loop spec (pre @ t # rest) conf'
                       (Suc (length pre + (length rest - length left))))))"
proof -
  have "for_names spec (pre @ t # rest) ns conf (length pre) =
     (case names_in_order spec ns conf rest of
        Inl msg \<Rightarrow> Some (Inl msg)
      | Inr (conf', left) \<Rightarrow>
          Some (Inr (conf', length pre + (length rest - length left))))" for ns
    using for_names_in_order [of spec pre t "[]" rest ns conf]
    by (simp split: sum.splits)
  then show ?thesis
    by (subst parseArgs_loop.simps)
      (simp add: index_append_here slice_def split: option.splits sum.splits)
qed

lemma loop_append:
  "parseArgs_loop spec (pre @ s) conf (length pre) = parseArgs_loop spec s conf 0"
proof (induction "length s" arbitrary: pre s conf rule: less_induct)
  case less
  show ?case
  proof (cases s)
    case Nil
    then show ?thesis
      by (simp add: parseArgs_loop.simps [of spec pre] parseArgs_loop.simps [of spec "[]"])
  next
    case (Cons t rest)
    have step: "parseArgs_loop spec (pre' @ t # rest) conf'
          (Suc (length pre' + (length rest - length left))) = parseArgs_loop spec left conf' 0"
      if "names_in_order spec ns conf rest = Inr (conf', left)" for pre' ns conf' left
    proof -
      from names_in_order_left [OF that] obtain used where rest: "rest = used @ left"
        by blast
      have "parseArgs_loop spec ((pre' @ t # used) @ left) conf' (length (pre' @ t # used)) =
          parseArgs_loop spec left conf' 0"
        by (rule less) (simp add: Cons rest)
      with rest show ?thesis by simp
    qed
    show ?thesis
      unfolding Cons
      using step [where pre' = pre] step [where pre' = "[]"]
      by (simp add: loop_at [of spec pre] loop_at [of spec "[]", simplified]
          split: option.splits sum.splits)
  qed
qed

lemma loop_Cons:
  "parseArgs_loop spec (t # rest) conf 0 =
     (if t = ''-'' then Some (Inl ''- is not a valid flag or option name'')
      else if t = ''--'' then Some (Inr (conf, rest))
      else if \<not> startsWith t ''-'' then Some (Inr (conf, t # rest))
      else (case names t of
              None \<Rightarrow> None
            | Some ns \<Rightarrow>
                (case names_in_order spec ns conf rest of
                   Inl msg \<Rightarrow> Some (Inl msg)
                 | Inr (conf', left) \<Rightarrow> parseArgs_loop spec left conf' 0)))"
proof -
  have "parseArgs_loop spec (t # rest) conf'
          (Suc (length rest - length left)) = parseArgs_loop spec left conf' 0"
    if "names_in_order spec ns conf rest = Inr (conf', left)" for ns conf' left
  proof -
    from names_in_order_left [OF that] obtain used where rest: "rest = used @ left"
      by blast
    from loop_append [of spec "t # used" left conf'] rest show ?thesis by simp
  qed
  then show ?thesis
    by (simp add: loop_at [of spec "[]", simplified] split: option.splits sum.splits)
qed


lemma reaches_loop:
  "reaches spec args conf idx conf' idx' \<Longrightarrow>
   parseArgs_loop spec args conf idx = parseArgs_loop spec args conf' idx'"
proof (induction rule: reaches.induct)
  case (here conf idx)
  show ?case by simp
next
  case (iteration idx arg ns conf conf' idx' conf'' idx'')
  then show ?case
    by (subst parseArgs_loop.simps) (auto simp: index_def split: if_splits)
qed


lemma loop_positional:
  assumes "index args idx = Some t" and "\<not> startsWith t ''-''"
  shows "parseArgs_loop spec args conf idx = Some (Inr (conf, t # drop (idx + 1) args))"
proof -
  from assms(1) have idx: "idx < length args" and t: "args ! idx = t"
    by (simp_all add: index_def split: if_splits)
  from assms(2) have "t \<noteq> ''-''" and "t \<noteq> ''--''"
    by (auto simp: startsWith_def)
  moreover from idx t have "drop idx args = t # drop (Suc idx) args"
    using Cons_nth_drop_Suc [of idx args] by simp
  ultimately show ?thesis
    using assms idx by (subst parseArgs_loop.simps) (simp add: slice_def)
qed

lemma loop_stops:
  assumes "parseArgs_loop spec args c i = Some (Inr (conf, xs))"
  shows "\<exists>idx. reaches spec args c i conf idx \<and>
    (case index args idx of
       None \<Rightarrow> idx = length args \<and> xs = []
     | Some t \<Rightarrow>
         if t = ''--'' then xs = drop (idx + 1) args
         else \<not> startsWith t ''-'' \<and> xs = drop idx args)"
  using assms
proof (induction spec args c i rule: parseArgs_loop.induct)
  case (1 spec args c i)
  show ?case
  proof (cases "index args i")
    case None
    with "1.prems" have "i = length args" and "c = conf" and "xs = []"
      by (simp_all add: parseArgs_loop.simps [of spec args c i] split: if_splits)
    with None reaches.here [of spec args conf "length args"] show ?thesis
      by auto
  next
    case (Some t)
    then have i: "i \<noteq> length args"
      by (auto simp: index_def split: if_splits)
    consider "t = ''-''" | "t = ''--''" | "\<not> startsWith t ''-''"
      | "t \<noteq> ''-''" "t \<noteq> ''--''" "startsWith t ''-''"
      by blast
    then show ?thesis
    proof cases
      case 1
      with Some i "1.prems" show ?thesis
        by (simp add: parseArgs_loop.simps [of spec args c i])
    next
      case 2
      with Some i "1.prems" have "c = conf" and "xs = drop (i + 1) args"
        by (simp_all add: parseArgs_loop.simps [of spec args c i] slice_def)
      with Some 2 reaches.here [of spec args conf i] show ?thesis
        by auto
    next
      case 3
      then have "t \<noteq> ''-''" and "t \<noteq> ''--''"
        by (auto simp: startsWith_def)
      with 3 Some i "1.prems" have "c = conf" and "xs = drop i args"
        by (simp_all add: parseArgs_loop.simps [of spec args c i] slice_def)
      with Some 3 \<open>t \<noteq> ''--''\<close> reaches.here [of spec args conf i] show ?thesis
        by auto
    next
      case 4
      with Some i "1.prems" obtain ns c' i' where ns: "names t = Some ns"
        and inner: "for_names spec args ns c i = Some (Inr (c', i'))"
        and rest: "parseArgs_loop spec args c' (i' + 1) = Some (Inr (conf, xs))"
        by (auto simp: parseArgs_loop.simps [of spec args c i]
            split: option.splits sum.splits)
      from "1.IH" [OF i _ _ Some _ ns inner refl refl rest] 4 Some
      obtain idx where "reaches spec args c' (i' + 1) conf idx"
        and stop: "case index args idx of
           None \<Rightarrow> idx = length args \<and> xs = []
         | Some t \<Rightarrow>
             if t = ''--'' then xs = drop (idx + 1) args
             else \<not> startsWith t ''-'' \<and> xs = drop idx args"
        by auto
      with Some 4 ns inner have "reaches spec args c i conf idx"
        by (blast intro: reaches.iteration)
      with stop show ?thesis by blast
    qed
  qed
qed

lemma names_examples:
  "names ''-xyz'' = Some [''-x'', ''-y'', ''-z'']"
  "names ''--color'' = Some [''--color'']"
  "names ''-a-b'' = Some [''-a'', ''-b'']"
  "names ''-x-'' = Some [''-x'']"
  by code_simp+

lemma loop_names:
  assumes "index args idx = Some arg" and "startsWith arg ''-''" and "arg \<noteq> ''--''"
    and "names arg = Some ns"
  shows "parseArgs_loop spec args conf idx =
    (case for_names spec args ns conf idx of
       None \<Rightarrow> None
     | Some (Inl msg) \<Rightarrow> Some (Inl msg)
     | Some (Inr (c, i)) \<Rightarrow> parseArgs_loop spec args c (i + 1))"
proof -
  from assms(1) have "idx \<noteq> length args"
    by (auto simp: index_def split: if_splits)
  moreover from assms(4) have "arg \<noteq> ''-''"
    by (auto simp: names_lone)
  ultimately show ?thesis
    using assms by (subst parseArgs_loop.simps) simp
qed

lemma loop_lone_dash:
  assumes "index args idx = Some ''-''"
  shows "parseArgs_loop spec args conf idx = Some (Inl ''- is not a valid flag or option name'')"
proof -
  from assms have "idx \<noteq> length args"
    by (auto simp: index_def split: if_splits)
  with assms show ?thesis
    by (subst parseArgs_loop.simps) simp
qed

lemma loop_separator:
  assumes "index args idx = Some ''--''"
  shows "parseArgs_loop spec args conf idx = Some (Inr (conf, drop (idx + 1) args))"
proof -
  from assms have "idx \<noteq> length args"
    by (auto simp: index_def split: if_splits)
  with assms show ?thesis
    by (subst parseArgs_loop.simps) (simp add: slice_def)
qed

lemma loop_end: "parseArgs_loop spec args conf (length args) = Some (Inr (conf, []))"
  by (subst parseArgs_loop.simps) simp

subsection \<open>Where an error comes from\<close>

lemma for_names_error:
  assumes "for_names spec args ns conf idx = Some (Inl e)"
  shows "\<exists>ns1 name ns2 conf' idx'.
    ns = ns1 @ name # ns2 \<and> for_names spec args ns1 conf idx = Some (Inr (conf', idx')) \<and>
    (spec name = None \<and> e = name @ '' is unrecognized''
     \<or> (\<exists>g. spec name = Some (Inr g) \<and>
           (idx' + 1 = length args \<and> e = name @ '' requires a value''
            \<or> (\<exists>v. idx' + 1 \<noteq> length args \<and> index args (idx' + 1) = Some v \<and> g v = Inl e))))"
  using assms
proof (induction ns arbitrary: conf idx)
  case Nil
  then show ?case by simp
next
  case (Cons n ns)
  let ?here = "\<exists>ns1 name ns2 conf' idx'.
    n # ns = ns1 @ name # ns2 \<and> for_names spec args ns1 conf idx = Some (Inr (conf', idx')) \<and>
    (spec name = None \<and> e = name @ '' is unrecognized''
     \<or> (\<exists>g. spec name = Some (Inr g) \<and>
           (idx' + 1 = length args \<and> e = name @ '' requires a value''
            \<or> (\<exists>v. idx' + 1 \<noteq> length args \<and> index args (idx' + 1) = Some v \<and> g v = Inl e))))"
  have first: ?here
    if "spec n = None \<and> e = n @ '' is unrecognized''
     \<or> (\<exists>g. spec n = Some (Inr g) \<and>
           (idx + 1 = length args \<and> e = n @ '' requires a value''
            \<or> (\<exists>v. idx + 1 \<noteq> length args \<and> index args (idx + 1) = Some v \<and> g v = Inl e)))"
  proof -
    have "n # ns = [] @ n # ns" and "for_names spec args [] conf idx = Some (Inr (conf, idx))"
      by simp_all
    with that show ?thesis by blast
  qed
  have later: ?here
    if step: "for_names spec args [n] conf idx = Some (Inr (c, i))"
      and rest: "for_names spec args ns c i = Some (Inl e)" for c i
  proof -
    from Cons.IH [OF rest] obtain ns1 name ns2 conf' idx' where
      ns: "ns = ns1 @ name # ns2"
      and pre: "for_names spec args ns1 c i = Some (Inr (conf', idx'))"
      and cause: "spec name = None \<and> e = name @ '' is unrecognized''
        \<or> (\<exists>g. spec name = Some (Inr g) \<and>
           (idx' + 1 = length args \<and> e = name @ '' requires a value''
            \<or> (\<exists>v. idx' + 1 \<noteq> length args \<and> index args (idx' + 1) = Some v \<and> g v = Inl e)))"
      by blast
    from step pre have "for_names spec args ([n] @ ns1) conf idx = Some (Inr (conf', idx'))"
      by (simp only: for_names_append) simp
    moreover from ns have "n # ns = ([n] @ ns1) @ name # ns2"
      by simp
    ultimately show ?thesis
      using cause by blast
  qed
  show ?case
  proof (cases "spec n")
    case None
    with Cons.prems first show ?thesis by simp
  next
    case (Some h)
    show ?thesis
    proof (cases h)
      case (Inl f)
      with Some Cons.prems later [of "f conf" idx] show ?thesis
        by simp
    next
      case (Inr g)
      show ?thesis
      proof (cases "idx + 1 = length args")
        case True
        with Some Inr Cons.prems first show ?thesis by simp
      next
        case False
        with Some Inr Cons.prems obtain v where v: "index args (idx + 1) = Some v"
          by (auto split: option.splits)
        show ?thesis
        proof (cases "g v")
          case (Inl msg)
          with Some Inr False v Cons.prems first show ?thesis by simp
        next
          case f: (Inr f)
          with Some Inr False v Cons.prems later [of "f conf" "idx + 1"] show ?thesis
            by simp
        qed
      qed
    qed
  qed
qed

lemma loop_fails:
  assumes "parseArgs_loop spec args c i = Some (Inl e)"
  shows "\<exists>conf idx. reaches spec args c i conf idx \<and>
    (index args idx = Some ''-'' \<and> e = ''- is not a valid flag or option name''
     \<or> (\<exists>arg ns. index args idx = Some arg \<and> startsWith arg ''-'' \<and> arg \<noteq> ''--'' \<and>
           names arg = Some ns \<and> for_names spec args ns conf idx = Some (Inl e)))"
  using assms
proof (induction spec args c i rule: parseArgs_loop.induct)
  case (1 spec args c i)
  from "1.prems" obtain t where t: "index args i = Some t"
    by (cases "index args i")
      (auto simp: parseArgs_loop.simps [of spec args c i] split: if_splits)
  then have i: "i \<noteq> length args"
    by (auto simp: index_def split: if_splits)
  show ?case
  proof (cases "t = ''-''")
    case True
    with t "1.prems" i have "e = ''- is not a valid flag or option name''"
      by (simp add: loop_lone_dash)
    with True t reaches.here [of spec args c i] show ?thesis
      by blast
  next
    case False
    with t i "1.prems" have sep: "t \<noteq> ''--''" and hy: "startsWith t ''-''"
      by (auto simp: parseArgs_loop.simps [of spec args c i] split: if_splits)
    with t i False "1.prems" obtain ns where ns: "names t = Some ns"
      by (auto simp: parseArgs_loop.simps [of spec args c i] split: option.splits)
    note unfold = loop_names [OF t hy sep ns, of spec c]
    show ?thesis
    proof (cases "for_names spec args ns c i")
      case None
      with unfold "1.prems" show ?thesis by simp
    next
      case (Some r)
      show ?thesis
      proof (cases r)
        case (Inl msg)
        with Some unfold "1.prems" have "for_names spec args ns c i = Some (Inl e)"
          by simp
        with t hy sep ns reaches.here [of spec args c i] show ?thesis
          by blast
      next
        case (Inr p)
        obtain c' i' where p: "p = (c', i')"
          by (cases p)
        with Some Inr unfold "1.prems" have
          rest: "parseArgs_loop spec args c' (i' + 1) = Some (Inl e)"
          by simp
        from Some Inr p have inner: "for_names spec args ns c i = Some (Inr (c', i'))"
          by simp
        from "1.IH" [OF i _ _ t _ ns inner refl refl rest] False sep hy t
        obtain conf idx where "reaches spec args c' (i' + 1) conf idx"
          and cause: "index args idx = Some ''-'' \<and> e = ''- is not a valid flag or option name''
     \<or> (\<exists>arg ns. index args idx = Some arg \<and> startsWith arg ''-'' \<and> arg \<noteq> ''--'' \<and>
           names arg = Some ns \<and> for_names spec args ns conf idx = Some (Inl e))"
          by auto
        with t False sep hy ns inner have "reaches spec args c i conf idx"
          by (blast intro: reaches.iteration)
        with cause show ?thesis by blast
      qed
    qed
  qed
qed

subsection \<open>The names of a token, one token each\<close>

lemma names_in_order_append:
  "names_in_order spec (ns1 @ ns2) conf following =
     (case names_in_order spec ns1 conf following of
        Inl msg \<Rightarrow> Inl msg
      | Inr (conf', left) \<Rightarrow> names_in_order spec ns2 conf' left)"
  by (induction ns1 arbitrary: conf following)
    (auto split: option.splits sum.splits list.splits)

lemma short_name:
  assumes "c \<noteq> CHR ''-''"
  shows "names [CHR ''-'', c] = Some [[CHR ''-'', c]]"
    and "startsWith [CHR ''-'', c] ''-''"
    and "[CHR ''-'', c] \<noteq> ''-''" and "[CHR ''-'', c] \<noteq> ''--''"
  using assms by (simp_all add: names_short startsWith_def)

lemma separate_short_names:
  assumes "\<forall>n\<in>set ns. \<exists>c. c \<noteq> CHR ''-'' \<and> n = [CHR ''-'', c]"
    and "\<forall>n\<in>set (butlast ns). \<forall>g. spec n \<noteq> Some (Inr g)"
  shows "parseArgs_loop spec (ns @ rest) conf 0 =
    (case names_in_order spec ns conf rest of
       Inl msg \<Rightarrow> Some (Inl msg)
     | Inr (conf', left) \<Rightarrow> parseArgs_loop spec left conf' 0)"
  using assms
proof (induction ns arbitrary: conf)
  case Nil
  show ?case by simp
next
  case (Cons n ns)
  from Cons.prems(1) obtain c where c: "c \<noteq> CHR ''-''" and n: "n = [CHR ''-'', c]"
    by auto
  have head: "parseArgs_loop spec (n # ns @ rest) conf 0 =
    (case names_in_order spec [n] conf (ns @ rest) of
       Inl msg \<Rightarrow> Some (Inl msg)
     | Inr (conf', left) \<Rightarrow> parseArgs_loop spec left conf' 0)"
    unfolding n using short_name [OF c] by (simp add: loop_Cons)
  show ?case
  proof (cases "spec n")
    case None
    with head show ?thesis by simp
  next
    case (Some h)
    show ?thesis
    proof (cases h)
      case (Inl f)
      have "parseArgs_loop spec (ns @ rest) (f conf) 0 =
        (case names_in_order spec ns (f conf) rest of
           Inl msg \<Rightarrow> Some (Inl msg)
         | Inr (conf', left) \<Rightarrow> parseArgs_loop spec left conf' 0)"
      proof (rule Cons.IH)
        from Cons.prems(1) show "\<forall>n\<in>set ns. \<exists>c. c \<noteq> CHR ''-'' \<and> n = [CHR ''-'', c]"
          by simp
        from Cons.prems(2) show "\<forall>n\<in>set (butlast ns). \<forall>g. spec n \<noteq> Some (Inr g)"
          by (auto split: if_splits)
      qed
      with head Some Inl show ?thesis by simp
    next
      case (Inr g)
      with Some Cons.prems(2) have "ns = []"
        by (auto split: if_splits)
      with head show ?thesis by simp
    qed
  qed
qed

subsection \<open>More arguments after the ones scanned\<close>

lemma for_names_more:
  assumes "for_names spec xs ns conf idx = Some (Inr r)"
  shows "for_names spec (xs @ zs) ns conf idx = Some (Inr r)"
  using assms
proof (induction ns arbitrary: conf idx)
  case Nil
  then show ?case by simp
next
  case (Cons n ns)
  show ?case
  proof (cases "spec n")
    case None
    with Cons.prems show ?thesis by simp
  next
    case (Some h)
    show ?thesis
    proof (cases h)
      case (Inl f)
      with Some Cons show ?thesis by simp
    next
      case (Inr g)
      with Some Cons.prems obtain v f where "idx + 1 \<noteq> length xs"
        and v: "index xs (idx + 1) = Some v" and f: "g v = Inr f"
        and rest: "for_names spec xs ns (f conf) (idx + 1) = Some (Inr r)"
        by (auto split: if_splits option.splits sum.splits)
      from v have "idx + 1 < length xs"
        by (rule index_lt)
      with v have "idx + 1 \<noteq> length (xs @ zs)" and "index (xs @ zs) (idx + 1) = Some v"
        by (auto simp: index_def nth_append split: if_splits)
      with Some Inr f Cons.IH [OF rest] show ?thesis
        by simp
    qed
  qed
qed

lemma reaches_more:
  assumes "reaches spec xs conf idx conf' idx'"
  shows "reaches spec (xs @ zs) conf idx conf' idx'"
  using assms
proof (induction rule: reaches.induct)
  case (here conf idx)
  show ?case by (rule reaches.here)
next
  case (iteration idx arg ns conf conf' idx' conf'' idx'')
  from iteration.hyps(1) have arg: "index (xs @ zs) idx = Some arg"
    by (auto simp: index_def nth_append split: if_splits)
  from iteration.hyps(6)
  have inner: "for_names spec (xs @ zs) ns conf idx = Some (Inr (conf', idx'))"
    by (rule for_names_more)
  from arg iteration.hyps(2-5) inner iteration.IH show ?case
    by (rule reaches.iteration)
qed

subsection \<open>The documented examples\<close>

lemma test_suite_examples:
  "parseArgs updaters (defaultOptions, []) = Some (Inr (defaultOptions, []))"
  "parseArgs updaters (defaultOptions, [''--color'']) =
     Some (Inr (defaultOptions\<lparr>color := True\<rparr>, []))"
  "parseArgs updaters (defaultOptions, [''--email'']) = Some (Inl ''--email requires a value'')"
  "parseArgs updaters (defaultOptions, [''--email'', ''xxx'']) =
     Some (Inl (show_plain ''xxx'' @ '' is not a valid email address''))"
  "parseArgs updaters (defaultOptions, [''-ce'', ''mail@example.org'']) =
     Some (Inr (defaultOptions\<lparr>color := True, email := Some ''mail@example.org''\<rparr>, []))"
  "parseArgs updaters (defaultOptions, [''--word'', ''foo'', ''bar'']) =
     Some (Inr (defaultOptions\<lparr>words := [''foo'']\<rparr>, [''bar'']))"
  "parseArgs updaters (defaultOptions, [''--'', ''-'', ''--'', ''---'']) =
     Some (Inr (defaultOptions, [''-'', ''--'', ''---'']))"
  "parseArgs updaters (defaultOptions, [''foo'', ''bar'', ''baz'', ''--'']) =
     Some (Inr (defaultOptions, [''foo'', ''bar'', ''baz'', ''--'']))"
  "parseArgs updaters (defaultOptions, [''-'']) =
     Some (Inl ''- is not a valid flag or option name'')"
  "parseArgs updaters (defaultOptions, [''-dc'']) = Some (Inl ''-d is unrecognized'')"
  "parseArgs updaters (defaultOptions, [''-cd'']) = Some (Inl ''-d is unrecognized'')"
  "parseArgs updaters (defaultOptions, [''-ce'']) = Some (Inl ''-e requires a value'')"
  "parseArgs updaters (defaultOptions, [''-ec'']) = Some (Inl ''-e requires a value'')"
  by code_simp+

lemma option_value_examples:
  "parseArgs updaters (defaultOptions, [''--word'', ''--'']) =
     Some (Inr (defaultOptions\<lparr>words := [''--'']\<rparr>, []))"
  "parseArgs updaters (defaultOptions, [''-w'', ''-c'']) =
     Some (Inr (defaultOptions\<lparr>words := [''-c'']\<rparr>, []))"
  "parseArgs updaters (defaultOptions, [''-w'', ''-'', ''x'']) =
     Some (Inr (defaultOptions\<lparr>words := [''-'']\<rparr>, [''x'']))"
  "parseArgs updaters (defaultOptions, [''-e'', ''-c'']) =
     Some (Inl (show_plain ''-c'' @ '' is not a valid email address''))"
  by code_simp+

subsection \<open>The scan returns, and the checked call returns what it returns\<close>



lemma checked_throws:
  "\<not> common [init] \<Longrightarrow> parseArgs_checked common spec (init, args) = None"
  by (simp add: parseArgs_checked_def)

section \<open>The claims\<close>

text \<open>
  C1, as amended. For a hyphen-prefixed token \<open>t\<close> that \<^verbatim>\<open>names\<close> expands to \<open>ns\<close>,
  where no name of \<open>ns\<close> other than the last is mapped to an Option, \<^verbatim>\<open>parseArgs\<close>
  on \<open>t\<close> followed by the remaining arguments returns what it returns on the names
  \<open>ns\<close>, each a token of its own, followed by the same remaining arguments. An Option
  that is the last name consumes the first remaining argument either way.
\<close>

theorem cluster_as_separate_names:
  assumes "startsWith t ''-''" and "names t = Some ns"
    and "\<forall>n\<in>set (butlast ns). \<forall>g. spec n \<noteq> Some (Option g)"
  shows "parseArgs spec (conf, t # rest) = parseArgs spec (conf, ns @ rest)"
proof (cases "startsWith t ''--''")
  case True
  with assms(2) show ?thesis
    by (auto simp: names_long)
next
  case False
  from assms(2) have "t \<noteq> ''-''"
    by (auto simp: names_lone)
  with assms(1) False obtain c cs where t: "t = CHR ''-'' # c # cs" and c: "c \<noteq> CHR ''-''"
    by (cases t; cases "tl t") (auto simp: startsWith_def)
  with assms(2) have ns: "ns = map (\<lambda>x. [CHR ''-'', x]) (filter (\<lambda>x. x \<noteq> CHR ''-'') (c # cs))"
    by (simp add: names_short)
  then have short: "\<forall>n\<in>set ns. \<exists>c. c \<noteq> CHR ''-'' \<and> n = [CHR ''-'', c]"
    by auto
  from False have "t \<noteq> ''--''"
    by (auto simp: startsWith_def)
  with assms(1,2) \<open>t \<noteq> ''-''\<close> have "parseArgs_loop spec (t # rest) conf 0 =
    (case names_in_order spec ns conf rest of
       Inl msg \<Rightarrow> Some (Inl msg)
     | Inr (conf', left) \<Rightarrow> parseArgs_loop spec left conf' 0)"
    by (simp add: loop_Cons)
  also from assms(3) have "\<dots> = parseArgs_loop spec (ns @ rest) conf 0"
    unfolding Option_def by (rule separate_short_names [OF short, symmetric])
  finally show ?thesis by simp
qed

theorem cluster_as_separate_names_witness:
  "startsWith ''-cce'' ''-'' \<and> names ''-cce'' = Some [''-c'', ''-c'', ''-e''] \<and>
   updaters ''-c'' = Some color_flag \<and>
   parseArgs updaters (defaultOptions, ''-cce'' # [''a@b'', ''x'']) =
     parseArgs updaters (defaultOptions, [''-c'', ''-c'', ''-e''] @ [''a@b'', ''x''])"
proof -
  have h1: "startsWith ''-cce'' ''-''"
    by code_simp
  have h2: "names ''-cce'' = Some [''-c'', ''-c'', ''-e'']"
    by code_simp
  have c: "updaters ''-c'' = Some color_flag"
    by (simp add: updaters_def)
  then have h3: "\<forall>n\<in>set (butlast [''-c'', ''-c'', ''-e'']). \<forall>g. updaters n \<noteq> Some (Option g)"
    by (simp add: color_flag_def Flag_def Option_def)
  from h1 h2 c cluster_as_separate_names [OF h1 h2 h3] show ?thesis
    by blast
qed

text \<open>
  C1 as stated, for any Option among the names, fails where an Option is followed by
  another name of the cluster: in the cluster \<^verbatim>\<open>-ec\<close> the option \<^verbatim>\<open>-e\<close> looks for
  its value after the cluster, and as a token of its own it takes the next token,
  \<^verbatim>\<open>-c\<close>. Both results are in the test suite.
\<close>

theorem cluster_expansion_counterexample:
  "names ''-ec'' = Some [''-e'', ''-c''] \<and>
   parseArgs updaters (defaultOptions, ''-ec'' # []) = Some (Inl ''-e requires a value'') \<and>
   parseArgs updaters (defaultOptions, [''-e'', ''-c''] @ []) =
     Some (Inl (show_plain ''-c'' @ '' is not a valid email address'')) \<and>
   parseArgs updaters (defaultOptions, ''-ec'' # []) \<noteq>
     parseArgs updaters (defaultOptions, [''-e'', ''-c''] @ [])"
  by code_simp

text \<open>
  C2, as amended. When the scan of \<open>xs\<close> alone runs through all of \<open>xs\<close>, every token
  of it taken as a flag name, an option name or an option's value, and comes to its
  end with the configuration \<open>conf1\<close>, then \<^verbatim>\<open>parseArgs\<close> on \<open>xs\<close> is \<open>conf1\<close> with
  no positional argument, and on \<open>xs\<close>, the separator and any \<open>ys\<close> it is \<open>conf1\<close> with
  \<open>ys\<close> as it is, whatever \<open>ys\<close> holds.
\<close>

theorem separator_after_consumed:
  assumes "reaches spec xs conf0 0 conf1 (length xs)"
  shows "parseArgs spec (conf0, xs) = Some (Inr (conf1, [])) \<and>
    parseArgs spec (conf0, xs @ [''--''] @ ys) = Some (Inr (conf1, ys))"
proof -
  from reaches_loop [OF assms] have "parseArgs spec (conf0, xs) = Some (Inr (conf1, []))"
    by (simp add: loop_end)
  moreover have "reaches spec (xs @ [''--''] @ ys) conf0 0 conf1 (length xs)"
    using assms by (rule reaches_more)
  from reaches_loop [OF this]
  have "parseArgs spec (conf0, xs @ [''--''] @ ys) = Some (Inr (conf1, ys))"
    by (simp add: loop_separator index_def)
  ultimately show ?thesis ..
qed

theorem separator_after_consumed_witness:
  "reaches updaters [''-w'', ''--'', ''-c''] defaultOptions 0
     (defaultOptions\<lparr>color := True, words := [''--'']\<rparr>) (length [''-w'', ''--'', ''-c'']) \<and>
   parseArgs updaters (defaultOptions, [''-w'', ''--'', ''-c''] @ [''--''] @ [''--'', ''-'', ''-c'']) =
     Some (Inr (defaultOptions\<lparr>color := True, words := [''--'']\<rparr>, [''--'', ''-'', ''-c'']))"
proof -
  let ?xs = "[''-w'', ''--'', ''-c'']"
  have r2: "reaches updaters ?xs (defaultOptions\<lparr>words := [''--'']\<rparr>) (1 + 1)
      (defaultOptions\<lparr>color := True, words := [''--'']\<rparr>) (2 + 1)"
  proof (rule reaches.iteration [where arg = "''-c''" and ns = "[''-c'']"])
    show "index ?xs (1 + 1) = Some ''-c''"
      by code_simp
    show "''-c'' \<noteq> ''-''" and "''-c'' \<noteq> ''--''"
      by simp_all
    show "startsWith ''-c'' ''-''"
      by code_simp
    show "names ''-c'' = Some [''-c'']"
      by code_simp
    show "for_names updaters ?xs [''-c''] (defaultOptions\<lparr>words := [''--'']\<rparr>) (1 + 1) =
        Some (Inr (defaultOptions\<lparr>color := True, words := [''--'']\<rparr>, 2))"
      by code_simp
    show "reaches updaters ?xs (defaultOptions\<lparr>color := True, words := [''--'']\<rparr>) (2 + 1)
        (defaultOptions\<lparr>color := True, words := [''--'']\<rparr>) (2 + 1)"
      by (rule reaches.here)
  qed
  have r1: "reaches updaters ?xs defaultOptions 0
      (defaultOptions\<lparr>color := True, words := [''--'']\<rparr>) (2 + 1)"
  proof (rule reaches.iteration [where arg = "''-w''" and ns = "[''-w'']"])
    show "index ?xs 0 = Some ''-w''"
      by code_simp
    show "''-w'' \<noteq> ''-''" and "''-w'' \<noteq> ''--''"
      by simp_all
    show "startsWith ''-w'' ''-''"
      by code_simp
    show "names ''-w'' = Some [''-w'']"
      by code_simp
    show "for_names updaters ?xs [''-w''] defaultOptions 0 =
        Some (Inr (defaultOptions\<lparr>words := [''--'']\<rparr>, 1))"
      by code_simp
    show "reaches updaters ?xs (defaultOptions\<lparr>words := [''--'']\<rparr>) (1 + 1)
        (defaultOptions\<lparr>color := True, words := [''--'']\<rparr>) (2 + 1)"
      by (rule r2)
  qed
  have len: "2 + 1 = length ?xs"
    by simp
  from r1 have r: "reaches updaters ?xs defaultOptions 0
      (defaultOptions\<lparr>color := True, words := [''--'']\<rparr>) (length ?xs)"
    unfolding len .
  from r separator_after_consumed [OF r, of "[''--'', ''-'', ''-c'']"] show ?thesis
    by blast
qed

text \<open>
  C2 as stated, for every \<open>xs\<close>, fails where the scan stops inside \<open>xs\<close>: after the
  positional argument \<^verbatim>\<open>foo\<close> the separator is one more positional argument, as in
  the test suite's \<^verbatim>\<open>['foo', 'bar', 'baz', '--']\<close>.
\<close>

theorem separator_counterexample:
  "parseArgs updaters (defaultOptions, [''foo''] @ [''--''] @ [''bar'']) =
     Some (Inr (defaultOptions, [''foo'', ''--'', ''bar''])) \<and>
   [''foo'', ''--'', ''bar''] \<noteq> [''bar'']"
  by code_simp

text \<open>
  C3. The names of a token are handled as the specification describes, one after the
  other on the tokens that follow the token: a Flag consumes nothing, and every
  Option, however many the cluster holds, consumes the first token not yet consumed
  as its value. So the first Option of a cluster takes the token right after the
  cluster, the second the token after that, and the scan goes on after the last value.
\<close>

theorem cluster_options_in_order:
  assumes "startsWith t ''-''" and "t \<noteq> ''--''" and "names t = Some ns"
  shows "parseArgs spec (conf, t # following) =
    (case names_in_order spec ns conf following of
       Inl msg \<Rightarrow> Some (Inl msg)
     | Inr (conf', left) \<Rightarrow> parseArgs spec (conf', left))"
proof -
  from assms(3) have "t \<noteq> ''-''"
    by (auto simp: names_lone)
  with assms show ?thesis
    by (simp add: loop_Cons split: sum.splits)
qed

theorem cluster_options_in_order_witness:
  "startsWith ''-wcw'' ''-'' \<and> ''-wcw'' \<noteq> ''--'' \<and> names ''-wcw'' = Some [''-w'', ''-c'', ''-w''] \<and>
   names_in_order updaters [''-w'', ''-c'', ''-w''] defaultOptions [''foo'', ''-c'', ''baz''] =
     Inr (defaultOptions\<lparr>color := True, words := [''foo'', ''-c'']\<rparr>, [''baz'']) \<and>
   parseArgs updaters (defaultOptions, [''-wcw'', ''foo'', ''-c'', ''baz'']) =
     Some (Inr (defaultOptions\<lparr>color := True, words := [''foo'', ''-c'']\<rparr>, [''baz'']))"
proof -
  have h1: "startsWith ''-wcw'' ''-''"
    by code_simp
  have h2: "''-wcw'' \<noteq> ''--''"
    by simp
  have h3: "names ''-wcw'' = Some [''-w'', ''-c'', ''-w'']"
    by code_simp
  have v: "names_in_order updaters [''-w'', ''-c'', ''-w''] defaultOptions [''foo'', ''-c'', ''baz''] =
     Inr (defaultOptions\<lparr>color := True, words := [''foo'', ''-c'']\<rparr>, [''baz''])"
    by code_simp
  have r: "parseArgs updaters (defaultOptions\<lparr>color := True, words := [''foo'', ''-c'']\<rparr>, [''baz'']) =
     Some (Inr (defaultOptions\<lparr>color := True, words := [''foo'', ''-c'']\<rparr>, [''baz'']))"
    by code_simp
  from cluster_options_in_order [OF h1 h2 h3, of updaters defaultOptions "[''foo'', ''-c'', ''baz'']"]
    h1 h2 h3 v r
  show ?thesis by simp
qed

text \<open>
  C4. \<^verbatim>\<open>parseArgs\<close> returns the error \<open>e\<close> exactly when the scan comes to the head of
  an iteration where one of four things holds: the token is the lone dash and \<open>e\<close> is
  \<open>- is not a valid flag or option name\<close>; or the token expands to names of which some
  first ones are dispatched without error and the next one, \<open>name\<close>, is absent from the
  specification and \<open>e\<close> is \<open>name is unrecognized\<close>, or is an Option with no argument
  left and \<open>e\<close> is \<open>name requires a value\<close>, or is an Option whose validator answers
  the next argument with the message \<open>e\<close>. The error is the first in scan order, and
  an error result holds no configuration.
\<close>

theorem parseArgs_error_iff:
  "parseArgs spec (init, args) = Some (Inl e) \<longleftrightarrow>
   (\<exists>conf idx. reaches spec args init 0 conf idx \<and>
      (index args idx = Some ''-'' \<and> e = ''- is not a valid flag or option name''
       \<or> (\<exists>arg ns1 name ns2 conf' idx'.
            index args idx = Some arg \<and> startsWith arg ''-'' \<and> arg \<noteq> ''--'' \<and>
            names arg = Some (ns1 @ name # ns2) \<and>
            for_names spec args ns1 conf idx = Some (Inr (conf', idx')) \<and>
            (spec name = None \<and> e = name @ '' is unrecognized''
             \<or> (\<exists>g. spec name = Some (Option g) \<and>
                  (idx' + 1 = length args \<and> e = name @ '' requires a value''
                   \<or> (\<exists>v. index args (idx' + 1) = Some v \<and> g v = Inl e)))))))"
  (is "?failed \<longleftrightarrow> ?situation")
proof
  assume ?failed
  then have "parseArgs_loop spec args init 0 = Some (Inl e)"
    by simp
  from loop_fails [OF this] obtain conf idx where r: "reaches spec args init 0 conf idx"
    and cause: "index args idx = Some ''-'' \<and> e = ''- is not a valid flag or option name''
     \<or> (\<exists>arg ns. index args idx = Some arg \<and> startsWith arg ''-'' \<and> arg \<noteq> ''--'' \<and>
           names arg = Some ns \<and> for_names spec args ns conf idx = Some (Inl e))"
    by blast
  from cause show ?situation
  proof
    assume "index args idx = Some ''-'' \<and> e = ''- is not a valid flag or option name''"
    with r show ?thesis by blast
  next
    assume "\<exists>arg ns. index args idx = Some arg \<and> startsWith arg ''-'' \<and> arg \<noteq> ''--'' \<and>
           names arg = Some ns \<and> for_names spec args ns conf idx = Some (Inl e)"
    then obtain arg ns where arg: "index args idx = Some arg" "startsWith arg ''-''"
        "arg \<noteq> ''--''" "names arg = Some ns"
      and inner: "for_names spec args ns conf idx = Some (Inl e)"
      by blast
    from for_names_error [OF inner] obtain ns1 name ns2 conf' idx' where
      "ns = ns1 @ name # ns2" "for_names spec args ns1 conf idx = Some (Inr (conf', idx'))"
      "spec name = None \<and> e = name @ '' is unrecognized''
       \<or> (\<exists>g. spec name = Some (Inr g) \<and>
           (idx' + 1 = length args \<and> e = name @ '' requires a value''
            \<or> (\<exists>v. idx' + 1 \<noteq> length args \<and> index args (idx' + 1) = Some v \<and> g v = Inl e)))"
      by blast
    with r arg show ?thesis
      unfolding Option_def by blast
  qed
next
  assume ?situation
  then obtain conf idx where r: "reaches spec args init 0 conf idx"
    and cause: "index args idx = Some ''-'' \<and> e = ''- is not a valid flag or option name''
       \<or> (\<exists>arg ns1 name ns2 conf' idx'.
            index args idx = Some arg \<and> startsWith arg ''-'' \<and> arg \<noteq> ''--'' \<and>
            names arg = Some (ns1 @ name # ns2) \<and>
            for_names spec args ns1 conf idx = Some (Inr (conf', idx')) \<and>
            (spec name = None \<and> e = name @ '' is unrecognized''
             \<or> (\<exists>g. spec name = Some (Option g) \<and>
                  (idx' + 1 = length args \<and> e = name @ '' requires a value''
                   \<or> (\<exists>v. index args (idx' + 1) = Some v \<and> g v = Inl e)))))"
    by blast
  from cause have "parseArgs_loop spec args conf idx = Some (Inl e)"
  proof
    assume "index args idx = Some ''-'' \<and> e = ''- is not a valid flag or option name''"
    then show ?thesis by (simp add: loop_lone_dash)
  next
    assume "\<exists>arg ns1 name ns2 conf' idx'.
            index args idx = Some arg \<and> startsWith arg ''-'' \<and> arg \<noteq> ''--'' \<and>
            names arg = Some (ns1 @ name # ns2) \<and>
            for_names spec args ns1 conf idx = Some (Inr (conf', idx')) \<and>
            (spec name = None \<and> e = name @ '' is unrecognized''
             \<or> (\<exists>g. spec name = Some (Option g) \<and>
                  (idx' + 1 = length args \<and> e = name @ '' requires a value''
                   \<or> (\<exists>v. index args (idx' + 1) = Some v \<and> g v = Inl e))))"
    then obtain arg ns1 name ns2 conf' idx' where
      arg: "index args idx = Some arg" "startsWith arg ''-''" "arg \<noteq> ''--''"
        "names arg = Some (ns1 @ name # ns2)"
      and pre: "for_names spec args ns1 conf idx = Some (Inr (conf', idx'))"
      and name: "spec name = None \<and> e = name @ '' is unrecognized''
             \<or> (\<exists>g. spec name = Some (Inr g) \<and>
                  (idx' + 1 = length args \<and> e = name @ '' requires a value''
                   \<or> (\<exists>v. index args (idx' + 1) = Some v \<and> g v = Inl e)))"
      unfolding Option_def by blast
    from name have "for_names spec args (name # ns2) conf' idx' = Some (Inl e)"
      by (auto simp: index_def split: if_splits)
    with pre have "for_names spec args (ns1 @ name # ns2) conf idx = Some (Inl e)"
      by (simp add: for_names_append)
    with loop_names [OF arg, of spec conf] show ?thesis
      by simp
  qed
  with reaches_loop [OF r] show ?failed
    by simp
qed

theorem parseArgs_error_iff_witness:
  "parseArgs updaters (defaultOptions, [''-c'', ''-ce'']) = Some (Inl ''-e requires a value'')"
proof -
  let ?args = "[''-c'', ''-ce'']"
  let ?conf = "defaultOptions\<lparr>color := True\<rparr>"
  have r: "reaches updaters ?args defaultOptions 0 ?conf (0 + 1)"
  proof (rule reaches.iteration [where arg = "''-c''" and ns = "[''-c'']"])
    show "index ?args 0 = Some ''-c''"
      by code_simp
    show "''-c'' \<noteq> ''-''" and "''-c'' \<noteq> ''--''"
      by simp_all
    show "startsWith ''-c'' ''-''"
      by code_simp
    show "names ''-c'' = Some [''-c'']"
      by code_simp
    show "for_names updaters ?args [''-c''] defaultOptions 0 = Some (Inr (?conf, 0))"
      by code_simp
    show "reaches updaters ?args ?conf (0 + 1) ?conf (0 + 1)"
      by (rule reaches.here)
  qed
  have arg: "index ?args (0 + 1) = Some ''-ce''" "startsWith ''-ce'' ''-''" "''-ce'' \<noteq> ''--''"
    "names ''-ce'' = Some ([''-c''] @ ''-e'' # [])"
    by code_simp+
  have before: "for_names updaters ?args [''-c''] ?conf (0 + 1) = Some (Inr (?conf, 1))"
    by code_simp
  have name: "updaters ''-e'' = Some email_option"
    by (simp add: updaters_def)
  have last: "1 + 1 = length ?args" "''-e requires a value'' = ''-e'' @ '' requires a value''"
    by simp_all
  from name last have "\<exists>g. updaters ''-e'' = Some (Option g) \<and>
      (1 + 1 = length ?args \<and> ''-e requires a value'' = ''-e'' @ '' requires a value''
       \<or> (\<exists>v. index ?args (1 + 1) = Some v \<and> g v = Inl ''-e requires a value''))"
    unfolding email_option_def by blast
  with r arg before have "\<exists>conf idx. reaches updaters ?args defaultOptions 0 conf idx \<and>
      (index ?args idx = Some ''-'' \<and>
         ''-e requires a value'' = ''- is not a valid flag or option name''
       \<or> (\<exists>arg ns1 name ns2 conf' idx'.
            index ?args idx = Some arg \<and> startsWith arg ''-'' \<and> arg \<noteq> ''--'' \<and>
            names arg = Some (ns1 @ name # ns2) \<and>
            for_names updaters ?args ns1 conf idx = Some (Inr (conf', idx')) \<and>
            (updaters name = None \<and> ''-e requires a value'' = name @ '' is unrecognized''
             \<or> (\<exists>g. updaters name = Some (Option g) \<and>
                  (idx' + 1 = length ?args \<and>
                     ''-e requires a value'' = name @ '' requires a value''
                   \<or> (\<exists>v. index ?args (idx' + 1) = Some v \<and>
                         g v = Inl ''-e requires a value''))))))"
    by blast
  then show ?thesis
    by (rule parseArgs_error_iff [THEN iffD2])
qed

text \<open>
  C5. The token \<open>v\<close> that an Option consumes is handed to the validator \<open>g\<close> and to
  nothing else: whatever \<open>v\<close> is, the result is the message of \<open>g v\<close>, or it is made
  of the setter of \<open>g v\<close>, the names after the Option and the tokens after \<open>v\<close>.
  Here \<open>v\<close> is the first token left when the names before the Option are done.
\<close>

theorem option_value_is_opaque:
  assumes "startsWith t ''-''" and "t \<noteq> ''--''" and "names t = Some (ns1 @ name # ns2)"
    and "names_in_order spec ns1 conf following = Inr (conf', v # left)"
    and "spec name = Some (Option g)"
  shows "parseArgs spec (conf, t # following) =
    (case g v of
       Inl msg \<Rightarrow> Some (Inl msg)
     | Inr f \<Rightarrow>
         (case names_in_order spec ns2 (f conf') left of
            Inl msg \<Rightarrow> Some (Inl msg)
          | Inr (c, left') \<Rightarrow> parseArgs spec (c, left')))"
proof -
  from assms(3) have "t \<noteq> ''-''"
    by (auto simp: names_lone)
  moreover from assms(4,5) have
    "names_in_order spec (ns1 @ name # ns2) conf following =
      (case g v of
         Inl msg \<Rightarrow> Inl msg
       | Inr f \<Rightarrow> names_in_order spec ns2 (f conf') left)"
    by (simp add: names_in_order_append Option_def)
  ultimately show ?thesis
    using assms(1-3) by (simp add: loop_Cons split: sum.splits)
qed

theorem option_value_is_opaque_witness:
  "startsWith ''-cw'' ''-'' \<and> ''-cw'' \<noteq> ''--'' \<and> names ''-cw'' = Some ([''-c''] @ ''-w'' # []) \<and>
   names_in_order updaters [''-c''] defaultOptions [''--'', ''-'', ''-c''] =
     Inr (defaultOptions\<lparr>color := True\<rparr>, ''--'' # [''-'', ''-c'']) \<and>
   updaters ''-w'' = Some words_option \<and>
   parseArgs updaters (defaultOptions, [''-cw'', ''--'', ''-'', ''-c'']) =
     parseArgs updaters (defaultOptions\<lparr>color := True, words := [''--'']\<rparr>, [''-'', ''-c''])"
proof -
  have h1: "startsWith ''-cw'' ''-''"
    by code_simp
  have h2: "''-cw'' \<noteq> ''--''"
    by simp
  have h3: "names ''-cw'' = Some ([''-c''] @ ''-w'' # [])"
    by code_simp
  have h4: "names_in_order updaters [''-c''] defaultOptions [''--'', ''-'', ''-c''] =
     Inr (defaultOptions\<lparr>color := True\<rparr>, ''--'' # [''-'', ''-c''])"
    by code_simp
  have h5: "updaters ''-w'' =
      Some (Option (\<lambda>word. Inr (\<lambda>options. options\<lparr>words := words options @ [word]\<rparr>)))"
    by (simp add: updaters_def words_option_def)
  from option_value_is_opaque [OF h1 h2 h3 h4 h5] h1 h2 h3 h4 h5
  show ?thesis by (simp add: words_option_def defaultOptions_def)
qed

text \<open>
  C6. When the top-level scan meets a token that does not start with a hyphen, that is
  when the scan from \<open>(init, 0)\<close> comes to the head of an iteration at such a token,
  \<^verbatim>\<open>parseArgs\<close> succeeds with the configuration of that moment and with the token
  and every token after it, as they are and in their order.
\<close>

theorem positional_ends_scan:
  assumes "reaches spec args init 0 conf idx"
    and "index args idx = Some t" and "\<not> startsWith t ''-''"
  shows "parseArgs spec (init, args) = Some (Inr (conf, t # drop (idx + 1) args))"
  using reaches_loop [OF assms(1)] loop_positional [OF assms(2,3)] by simp

theorem positional_ends_scan_witness:
  "reaches updaters [''--color'', ''foo'', ''-c''] defaultOptions 0
     (defaultOptions\<lparr>color := True\<rparr>) 1 \<and>
   index [''--color'', ''foo'', ''-c''] 1 = Some ''foo'' \<and>
   \<not> startsWith ''foo'' ''-'' \<and>
   parseArgs updaters (defaultOptions, [''--color'', ''foo'', ''-c'']) =
     Some (Inr (defaultOptions\<lparr>color := True\<rparr>, [''foo'', ''-c'']))"
proof -
  have r: "reaches updaters [''--color'', ''foo'', ''-c''] defaultOptions 0
      (defaultOptions\<lparr>color := True\<rparr>) (0 + 1)"
  proof (rule reaches.iteration [where arg = "''--color''" and ns = "[''--color'']"])
    show "index [''--color'', ''foo'', ''-c''] 0 = Some ''--color''"
      by code_simp
    show "''--color'' \<noteq> ''-''" and "''--color'' \<noteq> ''--''"
      by simp_all
    show "startsWith ''--color'' ''-''"
      by code_simp
    show "names ''--color'' = Some [''--color'']"
      by code_simp
    show "for_names updaters [''--color'', ''foo'', ''-c''] [''--color''] defaultOptions 0 =
        Some (Inr (defaultOptions\<lparr>color := True\<rparr>, 0))"
      by code_simp
    show "reaches updaters [''--color'', ''foo'', ''-c''] (defaultOptions\<lparr>color := True\<rparr>)
        (0 + 1) (defaultOptions\<lparr>color := True\<rparr>) (0 + 1)"
      by (rule reaches.here)
  qed
  have i: "index [''--color'', ''foo'', ''-c''] (0 + 1) = Some ''foo''"
    by code_simp
  have p: "\<not> startsWith ''foo'' ''-''"
    by code_simp
  from r i p positional_ends_scan [OF r i p] show ?thesis
    by simp
qed




text \<open>
  C8. For a token of one hyphen and then a character that is no hyphen, \<^verbatim>\<open>names\<close>
  yields one hyphen-prefixed name for each character of the token that is no hyphen,
  in order, dropping every hyphen (so \<^verbatim>\<open>names ('-a-b')\<close> is \<^verbatim>\<open>['-a', '-b']\<close> and
  \<^verbatim>\<open>names ('-x-')\<close> is \<^verbatim>\<open>['-x']\<close>); \<^verbatim>\<open>parseArgs\<close> dispatches exactly those names,
  one after the other on the tokens that follow, as the specification describes; and
  so it treats the token as it treats the token without those hyphens.
\<close>

theorem names_drop_hyphens:
  assumes "c \<noteq> CHR ''-''"
  shows "names (CHR ''-'' # c # cs) =
      Some (map (\<lambda>x. [CHR ''-'', x]) (filter (\<lambda>x. x \<noteq> CHR ''-'') (c # cs))) \<and>
    parseArgs spec (conf, (CHR ''-'' # c # cs) # rest) =
      (case names_in_order spec
              (map (\<lambda>x. [CHR ''-'', x]) (filter (\<lambda>x. x \<noteq> CHR ''-'') (c # cs))) conf rest of
         Inl msg \<Rightarrow> Some (Inl msg)
       | Inr (conf', left) \<Rightarrow> parseArgs spec (conf', left)) \<and>
    parseArgs spec (conf, (CHR ''-'' # c # cs) # rest) =
      parseArgs spec (conf, (CHR ''-'' # filter (\<lambda>x. x \<noteq> CHR ''-'') (c # cs)) # rest)"
proof -
  let ?t = "CHR ''-'' # c # cs"
  let ?u = "CHR ''-'' # c # filter (\<lambda>x. x \<noteq> CHR ''-'') cs"
  let ?ns = "map (\<lambda>x. [CHR ''-'', x]) (filter (\<lambda>x. x \<noteq> CHR ''-'') (c # cs))"
  from assms have f: "filter (\<lambda>x. x \<noteq> CHR ''-'') (c # cs) = c # filter (\<lambda>x. x \<noteq> CHR ''-'') cs"
    by simp
  have t: "names ?t = Some ?ns"
    using assms by (rule names_short)
  from assms have "names ?u = Some (map (\<lambda>x. [CHR ''-'', x])
      (filter (\<lambda>x. x \<noteq> CHR ''-'') (c # filter (\<lambda>x. x \<noteq> CHR ''-'') cs)))"
    by (rule names_short)
  with assms have u: "names ?u = Some ?ns"
    by simp
  have unfold: "parseArgs_loop spec (a # rest) conf 0 =
      (case names a of
         None \<Rightarrow> None
       | Some ns \<Rightarrow>
           (case names_in_order spec ns conf rest of
              Inl msg \<Rightarrow> Some (Inl msg)
            | Inr (conf', left) \<Rightarrow> parseArgs_loop spec left conf' 0))"
    if "a = CHR ''-'' # c # bs" for a bs
    using that assms by (simp add: loop_Cons startsWith_def)
  have dispatch: "parseArgs_loop spec (a # rest) conf 0 =
      (case names_in_order spec ?ns conf rest of
         Inl msg \<Rightarrow> Some (Inl msg)
       | Inr (conf', left) \<Rightarrow> parseArgs spec (conf', left))"
    if "a = CHR ''-'' # c # bs" and "names a = Some ?ns" for a bs
    using unfold [OF that(1)] that(2) by (simp split: sum.splits)
  from dispatch [of ?t cs] t dispatch [of ?u "filter (\<lambda>x. x \<noteq> CHR ''-'') cs"] u
  have "parseArgs_loop spec (?t # rest) conf 0 =
      (case names_in_order spec ?ns conf rest of
         Inl msg \<Rightarrow> Some (Inl msg)
       | Inr (conf', left) \<Rightarrow> parseArgs spec (conf', left))"
    and "parseArgs_loop spec (?t # rest) conf 0 = parseArgs_loop spec (?u # rest) conf 0"
    by simp_all
  with t f show ?thesis by simp
qed

theorem names_drop_hyphens_witness:
  "CHR ''c'' \<noteq> CHR ''-'' \<and> names ''-c-w-'' = Some [''-c'', ''-w''] \<and>
   parseArgs updaters (defaultOptions, [''-c-w-'', ''x'', ''y'']) =
     Some (Inr (defaultOptions\<lparr>color := True, words := [''x'']\<rparr>, [''y''])) \<and>
   parseArgs updaters (defaultOptions, [''-c-w-'', ''x'', ''y'']) =
     parseArgs updaters (defaultOptions, [''-cw'', ''x'', ''y''])"
proof -
  have h: "CHR ''c'' \<noteq> CHR ''-''"
    by simp
  note inst = names_drop_hyphens [OF h, of "''-w-''" updaters defaultOptions "[''x'', ''y'']"]
  from inst [THEN conjunct1] have n: "names ''-c-w-'' = Some [''-c'', ''-w'']"
    by simp
  from inst [THEN conjunct2, THEN conjunct2] have e: "parseArgs updaters (defaultOptions, [''-c-w-'', ''x'', ''y'']) =
      parseArgs updaters (defaultOptions, [''-cw'', ''x'', ''y''])"
    by simp
  have c: "parseArgs updaters (defaultOptions, [''-cw'', ''x'', ''y'']) =
      Some (Inr (defaultOptions\<lparr>color := True, words := [''x'']\<rparr>, [''y'']))"
    by code_simp
  from h n e c show ?thesis
    by simp
qed

text \<open>
  C9. Whenever \<^verbatim>\<open>parseArgs\<close> succeeds, the positional arguments it returns are a
  suffix of the arguments it was given, \<open>drop k args\<close>: the scan has come to some
  index \<open>idx\<close> with the configuration returned, and the positionals are nothing when
  the arguments are exhausted there, the tokens after \<open>idx\<close> when the separator is
  there, and the tokens from \<open>idx\<close> on when the token there has no leading hyphen.
\<close>

theorem positionals_are_suffix:
  assumes "parseArgs spec (init, args) = Some (Inr (conf, xs))"
  shows "(\<exists>k\<le>length args. xs = drop k args) \<and>
    (\<exists>idx. reaches spec args init 0 conf idx \<and>
      (case index args idx of
         None \<Rightarrow> idx = length args \<and> xs = []
       | Some t \<Rightarrow>
           if t = ''--'' then xs = drop (idx + 1) args
           else \<not> startsWith t ''-'' \<and> xs = drop idx args))"
proof -
  from assms have "parseArgs_loop spec args init 0 = Some (Inr (conf, xs))"
    by simp
  from loop_stops [OF this] obtain idx where r: "reaches spec args init 0 conf idx"
    and stop: "case index args idx of
         None \<Rightarrow> idx = length args \<and> xs = []
       | Some t \<Rightarrow>
           if t = ''--'' then xs = drop (idx + 1) args
           else \<not> startsWith t ''-'' \<and> xs = drop idx args"
    by blast
  have "\<exists>k\<le>length args. xs = drop k args"
  proof (cases "index args idx")
    case None
    with stop have "xs = drop (length args) args" by simp
    then show ?thesis by blast
  next
    case (Some t)
    then have "idx < length args" by (rule index_lt)
    with Some stop have "xs = drop (idx + 1) args \<or> xs = drop idx args"
      by (simp split: if_splits)
    with \<open>idx < length args\<close> show ?thesis
      by (metis Suc_eq_plus1 Suc_leI less_imp_le)
  qed
  with r stop show ?thesis by blast
qed

theorem positionals_are_suffix_witness:
  "parseArgs updaters (defaultOptions, [''-w'', ''--'', ''--'', ''-c'', ''x'']) =
     Some (Inr (defaultOptions\<lparr>words := [''--'']\<rparr>, [''-c'', ''x''])) \<and>
   (\<exists>k\<le>length [''-w'', ''--'', ''--'', ''-c'', ''x''].
      [''-c'', ''x''] = drop k [''-w'', ''--'', ''--'', ''-c'', ''x''])"
proof -
  have h: "parseArgs updaters (defaultOptions, [''-w'', ''--'', ''--'', ''-c'', ''x'']) =
     Some (Inr (defaultOptions\<lparr>words := [''--'']\<rparr>, [''-c'', ''x'']))"
    by code_simp
  from h positionals_are_suffix [OF h] show ?thesis
    by blast
qed

text \<open>
  C10. An empty string met by the top-level scan is a positional argument: it does
  not start with a hyphen, and \<^verbatim>\<open>parseArgs\<close> succeeds with the configuration of
  that moment, the empty string and every token after it.
\<close>

theorem empty_string_is_positional:
  assumes "reaches spec args init 0 conf idx" and "index args idx = Some ''''"
  shows "\<not> startsWith '''' ''-'' \<and>
    parseArgs spec (init, args) = Some (Inr (conf, '''' # drop (idx + 1) args))"
proof -
  have "\<not> startsWith '''' ''-''"
    by (simp add: startsWith_def)
  with reaches_loop [OF assms(1)] loop_positional [OF assms(2)] show ?thesis
    by simp
qed

theorem empty_string_is_positional_witness:
  "reaches updaters [''-c'', '''', ''-c''] defaultOptions 0
     (defaultOptions\<lparr>color := True\<rparr>) (0 + 1) \<and>
   index [''-c'', '''', ''-c''] (0 + 1) = Some '''' \<and>
   parseArgs updaters (defaultOptions, [''-c'', '''', ''-c'']) =
     Some (Inr (defaultOptions\<lparr>color := True\<rparr>, ['''', ''-c'']))"
proof -
  have r: "reaches updaters [''-c'', '''', ''-c''] defaultOptions 0
      (defaultOptions\<lparr>color := True\<rparr>) (0 + 1)"
  proof (rule reaches.iteration [where arg = "''-c''" and ns = "[''-c'']"])
    show "index [''-c'', '''', ''-c''] 0 = Some ''-c''"
      by code_simp
    show "''-c'' \<noteq> ''-''" and "''-c'' \<noteq> ''--''"
      by simp_all
    show "startsWith ''-c'' ''-''"
      by code_simp
    show "names ''-c'' = Some [''-c'']"
      by code_simp
    show "for_names updaters [''-c'', '''', ''-c''] [''-c''] defaultOptions 0 =
        Some (Inr (defaultOptions\<lparr>color := True\<rparr>, 0))"
      by code_simp
    show "reaches updaters [''-c'', '''', ''-c''] (defaultOptions\<lparr>color := True\<rparr>)
        (0 + 1) (defaultOptions\<lparr>color := True\<rparr>) (0 + 1)"
      by (rule reaches.here)
  qed
  have i: "index [''-c'', '''', ''-c''] (0 + 1) = Some ''''"
    by code_simp
  from r i empty_string_is_positional [OF r i] show ?thesis
    by simp
qed

end
